theory Spec2Isabelle
  imports Main "HOL-Library.Sublist"
begin

section \<open>Text search over a dataframe: \<open>app.py\<close> and \<open>streamlit_app.py\<close>\<close>

text \<open>
  Both source files define the same two functions, \<open>load_data\<close> and
  \<open>search_dataframe\<close>; \<open>app.py\<close> adds \<open>generate_barplot\<close>. Their bodies are
  single calls into pandas, the \<open>re\<close> module, Streamlit and Altair, so the embedding
  gives each library call the meaning the library documents for it, one definition
  per call, and composes them as the source does.

  Strings are \<open>char list\<close> and stand for ASCII text: case-insensitivity folds
  the letters \<open>A\<close> to \<open>Z\<close> only, and \<open>.\<close> consumes one \<open>char\<close>.
\<close>

subsection \<open>Errors\<close>

text \<open>
  \<open>KeyError\<close> is what \<open>df[column]\<close> raises for a label that is not a column,
  \<open>ReError\<close> is \<open>re.error\<close>, raised by \<open>re.compile\<close>, and \<open>FileNotFoundError\<close>
  is what \<open>pd.read_csv\<close> raises for a missing file.
  \<open>Unsupported\<close> is not a Python exception: it marks a pattern that uses
  regular-expression syntax outside the fragment modelled below. What holds of
  a search for every pattern is stated over \<open>search_dataframe_with\<close>, which
  takes the regular-expression engine as a parameter.
\<close>

datatype error = KeyError | ReError | FileNotFoundError | ParserError | Unsupported

subsection \<open>The dataframe\<close>

text \<open>
  A \<open>pd.DataFrame\<close> as \<open>load_data\<close> produces it: the column labels and the rows in
  file order, every cell a string (\<open>fillna("")\<close> has replaced each missing value by
  the empty string, so a row shorter than the header reads as \<open>''''\<close> there).
  This is the table of the specification, whose values are all text; a column
  that \<open>pd.read_csv\<close> infers to be numeric is not covered.
\<close>

record dataframe =
  columns :: "string list"
  rows :: "string list list"

fun get_loc :: "'a \<Rightarrow> 'a list \<Rightarrow> nat option" where
  "get_loc c [] = None"
| "get_loc c (x # xs) = (if x = c then Some 0 else map_option Suc (get_loc c xs))"

definition cell :: "string list \<Rightarrow> nat \<Rightarrow> string" where
  "cell r i = (if i < length r then r ! i else [])"

text \<open>\<open>df[column]\<close>: the column as a series of values, \<open>KeyError\<close> for an unknown label.\<close>

definition getitem :: "dataframe \<Rightarrow> string \<Rightarrow> error + string list" where
  "getitem df column =
     (case get_loc column (columns df) of
        None \<Rightarrow> Inl KeyError
      | Some i \<Rightarrow> Inr (map (\<lambda>r. cell r i) (rows df)))"

text \<open>\<open>df.loc[mask]\<close>: the rows whose mask entry is true, in their order.\<close>

definition loc :: "dataframe \<Rightarrow> bool list \<Rightarrow> dataframe" where
  "loc df msk = df\<lparr>rows := map fst (filter snd (zip (rows df) msk))\<rparr>"

subsection \<open>Regular expressions: the fragment of \<open>re\<close> that is modelled\<close>

text \<open>
  \<open>Series.str.contains(pat, case=False)\<close> has \<open>regex=True\<close> by default: it
  compiles \<open>pat\<close> with \<open>re.IGNORECASE\<close> and tests \<open>regex.search(x)\<close> on each value.
  The fragment covers literal characters, \<open>.\<close>, a backslash before a character
  that is neither a letter nor a digit, the postfix operators \<open>*\<close>, \<open>+\<close>, \<open>?\<close>,
  alternation \<open>|\<close> and plain groups \<open>( )\<close>.
\<close>

datatype regex =
    Null
  | Eps
  | Lit char
  | AnyChar
  | Alt regex regex
  | Seq regex regex
  | Star regex

definition ascii_lower :: "char \<Rightarrow> char" where
  "ascii_lower c =
     (let n = (of_char c :: nat) in if 65 \<le> n \<and> n \<le> 90 then char_of (n + 32) else c)"

text \<open>A literal under \<open>IGNORECASE\<close>; \<open>.\<close> without \<open>DOTALL\<close> does not match a newline.\<close>

fun matches_char :: "regex \<Rightarrow> char \<Rightarrow> bool" where
  "matches_char (Lit a) c = (ascii_lower a = ascii_lower c)"
| "matches_char AnyChar c = (c \<noteq> CHR 0x0A)"
| "matches_char _ c = False"

fun nullable :: "regex \<Rightarrow> bool" where
  "nullable Null = False"
| "nullable Eps = True"
| "nullable (Lit a) = False"
| "nullable AnyChar = False"
| "nullable (Alt r s) = (nullable r \<or> nullable s)"
| "nullable (Seq r s) = (nullable r \<and> nullable s)"
| "nullable (Star r) = True"

fun deriv :: "char \<Rightarrow> regex \<Rightarrow> regex" where
  "deriv c Null = Null"
| "deriv c Eps = Null"
| "deriv c (Lit a) = (if matches_char (Lit a) c then Eps else Null)"
| "deriv c AnyChar = (if matches_char AnyChar c then Eps else Null)"
| "deriv c (Alt r s) = Alt (deriv c r) (deriv c s)"
| "deriv c (Seq r s) =
     (if nullable r then Alt (Seq (deriv c r) s) (deriv c s) else Seq (deriv c r) s)"
| "deriv c (Star r) = Seq (deriv c r) (Star r)"

text \<open>\<open>regex.match(x) is not None\<close>: some prefix of \<open>x\<close> is in the language.\<close>

fun re_match :: "regex \<Rightarrow> string \<Rightarrow> bool" where
  "re_match r [] = nullable r"
| "re_match r (c # cs) = (nullable r \<or> re_match (deriv c r) cs)"

text \<open>\<open>regex.search(x) is not None\<close>: a match starts at some position of \<open>x\<close>.\<close>

fun re_search :: "regex \<Rightarrow> string \<Rightarrow> bool" where
  "re_search r [] = nullable r"
| "re_search r (c # cs) = (re_match r (c # cs) \<or> re_search r cs)"

subsection \<open>Parsing a pattern\<close>

text \<open>
  One pass over the pattern with a stack of open groups. A frame holds the
  finished alternatives of the group and the items of the current alternative,
  both newest first; an item carries whether it already is a repetition.
\<close>

type_synonym frame = "regex list \<times> (regex \<times> bool) list"

fun seq_of :: "regex list \<Rightarrow> regex" where
  "seq_of [] = Eps"
| "seq_of (r # rs) = Seq r (seq_of rs)"

fun alt_of :: "regex list \<Rightarrow> regex" where
  "alt_of [] = Null"
| "alt_of (r # rs) = Alt r (alt_of rs)"

definition branch_of :: "(regex \<times> bool) list \<Rightarrow> regex" where
  "branch_of items = seq_of (rev (map fst items))"

definition frame_regex :: "frame \<Rightarrow> regex" where
  "frame_regex f = alt_of (rev (branch_of (snd f) # fst f))"

definition repeat :: "char \<Rightarrow> regex \<Rightarrow> regex" where
  "repeat q r =
     (if q = CHR ''*'' then Star r
      else if q = CHR ''+'' then Seq r (Star r)
      else Alt r Eps)"

definition is_alnum :: "char \<Rightarrow> bool" where
  "is_alnum c =
     (let n = (of_char c :: nat)
      in (48 \<le> n \<and> n \<le> 57) \<or> (65 \<le> n \<and> n \<le> 90) \<or> (97 \<le> n \<and> n \<le> 122))"

text \<open>
  The errors are those of \<open>sre_parse\<close>: ``nothing to repeat'', ``multiple repeat'',
  ``unbalanced parenthesis'', ``missing ), unterminated subpattern'' and
  ``bad escape (end of pattern)''. Outside the fragment are \<open>[\<close>, \<open>{\<close>, \<open>^\<close>, \<open>$\<close>,
  the extension syntax \<open>(?\<close>, an escaped letter or digit, and the lazy and
  possessive marks \<open>?\<close> and \<open>+\<close> directly after a repetition.
\<close>

fun parse :: "frame \<Rightarrow> frame list \<Rightarrow> string \<Rightarrow> error + regex" where
  "parse cur stack [] = (if stack = [] then Inr (frame_regex cur) else Inl ReError)"
| "parse (alts, items) stack (c # cs) =
     (if c = CHR ''|'' then parse (branch_of items # alts, []) stack cs
      else if c = CHR ''('' then
        (if take 1 cs = ''?'' then Inl Unsupported
         else parse ([], []) ((alts, items) # stack) cs)
      else if c = CHR '')'' then
        (case stack of
           [] \<Rightarrow> Inl ReError
         | (palts, pitems) # st \<Rightarrow>
             parse (palts, (frame_regex (alts, items), False) # pitems) st cs)
      else if c = CHR ''*'' \<or> c = CHR ''+'' \<or> c = CHR ''?'' then
        (case items of
           [] \<Rightarrow> Inl ReError
         | (r, repeated) # rest \<Rightarrow>
             if repeated then Inl ReError
             else if take 1 cs = ''?'' \<or> take 1 cs = ''+'' then Inl Unsupported
             else parse (alts, (repeat c r, True) # rest) stack cs)
      else if c = CHR ''.'' then parse (alts, (AnyChar, False) # items) stack cs
      else if c = CHR 0x5C then
        (case cs of
           [] \<Rightarrow> Inl ReError
         | d # ds \<Rightarrow>
             if is_alnum d then Inl Unsupported
             else parse (alts, (Lit d, False) # items) stack ds)
      else if c = CHR ''['' \<or> c = CHR ''{'' \<or> c = CHR ''^'' \<or> c = CHR ''$''
        then Inl Unsupported
      else parse (alts, (Lit c, False) # items) stack cs)"

definition re_compile :: "string \<Rightarrow> error + regex" where
  "re_compile pat = parse ([], []) [] pat"

subsection \<open>\<open>search_dataframe\<close>\<close>

text \<open>
  \<^verbatim>\<open>results = df.loc[df[column].str.contains(search_str, case=False)]\<close>

  The function is first written over any regular-expression engine: \<open>compile\<close>
  stands for \<open>re.compile(pat, flags=re.IGNORECASE)\<close>, which returns a compiled
  pattern or raises, and \<open>search r x\<close> for \<open>r.search(x) is not None\<close>.
  \<open>str.contains\<close> compiles once, then searches each value; \<open>df[column]\<close> is
  evaluated before it.
\<close>

definition str_contains_with ::
  "(string \<Rightarrow> error + 'r) \<Rightarrow> ('r \<Rightarrow> string \<Rightarrow> bool) \<Rightarrow> string list \<Rightarrow> string \<Rightarrow> error + bool list" where
  "str_contains_with compile search series pat =
     (case compile pat of
        Inl e \<Rightarrow> Inl e
      | Inr r \<Rightarrow> Inr (map (search r) series))"

definition search_dataframe_with ::
  "(string \<Rightarrow> error + 'r) \<Rightarrow> ('r \<Rightarrow> string \<Rightarrow> bool) \<Rightarrow>
   dataframe \<Rightarrow> string \<Rightarrow> string \<Rightarrow> error + dataframe" where
  "search_dataframe_with compile search df column search_str =
     (case getitem df column of
        Inl e \<Rightarrow> Inl e
      | Inr series \<Rightarrow>
          (case str_contains_with compile search series search_str of
             Inl e \<Rightarrow> Inl e
           | Inr msk \<Rightarrow> Inr (loc df msk)))"

text \<open>\<open>search_dataframe\<close> with the engine modelled above.\<close>

definition str_contains :: "string list \<Rightarrow> string \<Rightarrow> error + bool list" where
  "str_contains series pat = str_contains_with re_compile re_search series pat"

definition search_dataframe :: "dataframe \<Rightarrow> string \<Rightarrow> string \<Rightarrow> error + dataframe" where
  "search_dataframe df column search_str =
     search_dataframe_with re_compile re_search df column search_str"

section \<open>The bar chart of top groups: \<open>generate_barplot\<close> in \<open>app.py\<close>\<close>

text \<open>
  \<open>generate_barplot\<close> builds a Vega-Lite chart over the search results: an
  aggregate transform, a window transform, a filter transform, and a bar mark whose
  \<open>y\<close> axis is sorted by \<open>-x\<close>. The model computes the bars that chart shows,
  top to bottom, each with the fields of its datum: \<open>label\<close> is the field named
  by \<open>count_column\<close>, which the \<open>y\<close> axis shows, \<open>count\<close> and \<open>rank\<close> are the
  fields the two transforms write. Bars with the same label share a band of the
  axis.
\<close>

datatype field_value = Undefined | Str string | Num nat

record bar =
  label :: field_value
  count :: nat
  rank :: nat

text \<open>
  \<open>datum[field]\<close> on a row of the chart's data. Vega-Lite reads a field name
  as an access path: \<open>.\<close>, brackets, quotes and the backslash are its syntax. A
  name without them that is a column reads the cell; one that is no column reads
  as \<open>undefined\<close>. A name with path syntax, or an empty one, does not name a
  column of the row: it is given \<open>undefined\<close> here, and what such a path may read
  inside a value (the length of a string, one of its characters) is not modelled.
\<close>

definition path_chars :: string where
  "path_chars = [CHR ''.'', CHR ''['', CHR '']'', CHR 0x5C, CHR 0x27, CHR 0x22]"

definition has_path_syntax :: "string \<Rightarrow> bool" where
  "has_path_syntax field = (field = [] \<or> list_ex (\<lambda>ch. ch \<in> set path_chars) field)"

definition datum :: "dataframe \<Rightarrow> string list \<Rightarrow> string \<Rightarrow> field_value" where
  "datum df r field =
     (if has_path_syntax field then Undefined
      else case get_loc field (columns df) of
             None \<Rightarrow> Undefined
           | Some i \<Rightarrow> Str (cell r i))"

text \<open>
  \<^verbatim>\<open>transform_aggregate(count='count()', groupby=[count_column])\<close>: one cell per
  distinct key, created when the key is first seen, counting its rows
  (\<open>aggregate_cells\<close>). The datum that leaves the transform has the key in field
  \<open>count_column\<close> and then the number of rows in field \<open>count\<close>: for a grouping
  column that is itself named \<open>count\<close> the number replaces the key.
\<close>

fun add_to_cell :: "'k \<Rightarrow> ('k \<times> nat) list \<Rightarrow> ('k \<times> nat) list" where
  "add_to_cell k [] = [(k, 1)]"
| "add_to_cell k ((k', n) # cells) =
     (if k' = k then (k', Suc n) # cells else (k', n) # add_to_cell k cells)"

definition aggregate_cells :: "'k list \<Rightarrow> ('k \<times> nat) list" where
  "aggregate_cells keys = foldl (\<lambda>cells k. add_to_cell k cells) [] keys"

definition write_count :: "string \<Rightarrow> field_value \<times> nat \<Rightarrow> field_value \<times> nat" where
  "write_count count_column c =
     (if count_column = ''count'' then (Num (snd c), snd c) else c)"

definition transform_aggregate :: "string \<Rightarrow> field_value list \<Rightarrow> (field_value \<times> nat) list" where
  "transform_aggregate count_column keys = map (write_count count_column) (aggregate_cells keys)"

text \<open>
  \<^verbatim>\<open>transform_window(rank='rank(count)', sort=[SortField('count', order='descending')])\<close>:
  the data are sorted by count, largest first, equal counts staying in the
  order they had; \<open>rank\<close> starts at 1, and at index \<open>i\<close> it becomes \<open>i + 1\<close>
  when the count differs from the one before and stays as it is otherwise
  (\<open>rank_window\<close>). The rank is written into field \<open>rank\<close> of the datum: for
  a grouping column that is itself named \<open>rank\<close> it replaces the key.
\<close>

definition count_descending :: "('k \<times> nat) list \<Rightarrow> ('k \<times> nat) list" where
  "count_descending cells = sort_key (\<lambda>c. - int (snd c)) cells"

fun rank_from :: "nat \<Rightarrow> nat \<Rightarrow> nat \<Rightarrow> (field_value \<times> nat) list \<Rightarrow> bar list" where
  "rank_from i prev r [] = []"
| "rank_from i prev r ((k, n) # cells) =
     (let r' = (if 0 < i \<and> prev \<noteq> n then i + 1 else r)
      in \<lparr>label = k, count = n, rank = r'\<rparr> # rank_from (i + 1) n r' cells)"

definition rank_window :: "(field_value \<times> nat) list \<Rightarrow> bar list" where
  "rank_window cells = rank_from 0 0 1 (count_descending cells)"

definition write_rank :: "string \<Rightarrow> bar \<Rightarrow> bar" where
  "write_rank count_column b =
     (if count_column = ''rank'' then b\<lparr>label := Num (rank b)\<rparr> else b)"

definition transform_window :: "string \<Rightarrow> (field_value \<times> nat) list \<Rightarrow> bar list" where
  "transform_window count_column cells = map (write_rank count_column) (rank_window cells)"

text \<open>\<^verbatim>\<open>transform_filter(alt.datum.rank < top_n)\<close>\<close>

definition transform_filter :: "int \<Rightarrow> bar list \<Rightarrow> bar list" where
  "transform_filter top_n bars = filter (\<lambda>b. int (rank b) < top_n) bars"

text \<open>
  \<^verbatim>\<open>encode(y=alt.Y(..., sort='-x'), x='count:Q')\<close>: the bars are laid out by
  count, largest first; Vega's comparator for a sorted scale domain is stable, so
  bars of equal count keep the order of the data.
\<close>

definition encode_sort :: "bar list \<Rightarrow> bar list" where
  "encode_sort bars = sort_key (\<lambda>b. - int (count b)) bars"

text \<open>The grouping key of every row of the chart's data, in row order.\<close>

definition group_values :: "dataframe \<Rightarrow> string \<Rightarrow> field_value list" where
  "group_values results count_column = map (\<lambda>r. datum results r count_column) (rows results)"

text \<open>No step of \<open>generate_barplot\<close> raises: it returns a chart for every argument.\<close>

definition generate_barplot :: "dataframe \<Rightarrow> string \<Rightarrow> int \<Rightarrow> error + bar list" where
  "generate_barplot results count_column top_n =
     Inr (encode_sort (transform_filter top_n (transform_window count_column
       (transform_aggregate count_column (group_values results count_column)))))"

section \<open>Loading the corpus: \<open>load_data\<close> under \<open>@st.cache\<close>\<close>

text \<open>
  \<^verbatim>\<open>return pd.read_csv(filepath, sep="\\t", skiprows=33).fillna("")\<close>

  The file system and the cache of the decorator are the state. What
  \<open>pd.read_csv\<close> makes of a file's text is a parameter \<open>read_csv\<close> of the
  model: a frame whose missing cells are \<open>None\<close>, or an error. \<open>body_runs\<close>
  counts how often the undecorated body has run, that is how often the file was
  read and parsed.
\<close>

type_synonym raw_frame = "string list \<times> string option list list"

definition fillna :: "raw_frame \<Rightarrow> dataframe" where
  "fillna raw =
     \<lparr>columns = fst raw,
      rows = map (map (\<lambda>v. case v of None \<Rightarrow> [] | Some x \<Rightarrow> x)) (snd raw)\<rparr>"

record session =
  files :: "string \<rightharpoonup> string"
  cache :: "string \<rightharpoonup> dataframe"
  body_runs :: nat

definition load_data_body ::
  "(string \<Rightarrow> error + raw_frame) \<Rightarrow> string \<Rightarrow> session \<Rightarrow> (error + dataframe) \<times> session" where
  "load_data_body read_csv filepath s =
     (let s' = s\<lparr>body_runs := body_runs s + 1\<rparr>
      in case files s filepath of
           None \<Rightarrow> (Inl FileNotFoundError, s')
         | Some text \<Rightarrow>
             (case read_csv text of
                Inl e \<Rightarrow> (Inl e, s')
              | Inr raw \<Rightarrow> (Inr (fillna raw), s')))"

text \<open>
  \<open>@st.cache\<close>: a call whose argument has an entry returns the stored value
  without running the body; otherwise the body runs, and its value is stored
  unless it raised. Entries are never evicted (no \<open>ttl\<close>, no \<open>max_entries\<close>).
\<close>

definition load_data ::
  "(string \<Rightarrow> error + raw_frame) \<Rightarrow> string \<Rightarrow> session \<Rightarrow> (error + dataframe) \<times> session" where
  "load_data read_csv filepath s =
     (case cache s filepath of
        Some df \<Rightarrow> (Inr df, s)
      | None \<Rightarrow>
          (case load_data_body read_csv filepath s of
             (Inl e, s') \<Rightarrow> (Inl e, s')
           | (Inr df, s') \<Rightarrow> (Inr df, s'\<lparr>cache := (cache s')(filepath \<mapsto> df)\<rparr>)))"

section \<open>Notions used to state the properties\<close>

text \<open>
  The search rule as the specification words it: the search string, case-folded,
  is a contiguous part of the value, case-folded.
\<close>

definition casefold :: "string \<Rightarrow> string" where
  "casefold s = map ascii_lower s"

definition spec_contains :: "string \<Rightarrow> string \<Rightarrow> bool" where
  "spec_contains search_str v = sublist (casefold search_str) (casefold v)"

text \<open>The characters that \<open>sre_parse\<close> does not read as literals (\<open>SPECIAL_CHARS\<close>).\<close>

definition special_chars :: string where
  "special_chars = ''.'' @ [CHR 0x5C] @ ''[{()*+?^$|''"




text \<open>
  A grouping column whose name is an ordinary field name: it has no path
  syntax, and it is not one of the two fields the chart writes itself.
\<close>

definition ordinary_field :: "string \<Rightarrow> bool" where
  "ordinary_field c =
     (\<not> has_path_syntax c \<and> c \<notin> set [''count'', ''rank''])"

text \<open>
  The bars with the group key still in \<open>label\<close>, before the fields \<open>count\<close>
  and \<open>rank\<close> are written over a grouping column of their name; \<open>written\<close> is
  what the two writes together do to a bar.
\<close>

definition keyed_bars :: "field_value list \<Rightarrow> int \<Rightarrow> bar list" where
  "keyed_bars ks top_n = encode_sort (transform_filter top_n (rank_window (aggregate_cells ks)))"

definition written :: "string \<Rightarrow> bar \<Rightarrow> bar" where
  "written count_column b =
     write_rank count_column
       (b\<lparr>label := fst (write_count count_column (label b, count b))\<rparr>)"

text \<open>Text in which every character is ASCII.\<close>

definition ascii_text :: "string \<Rightarrow> bool" where
  "ascii_text s = list_all (\<lambda>ch. (of_char ch :: nat) < 128) s"

text \<open>The table of the specification's scenario, and result sets for the bar chart.\<close>

definition example_table :: dataframe where
  "example_table =
     \<lparr>columns = [''title'', ''journal''],
      rows = [[''Covid vaccine trial'', ''Nature''],
              [''Covid testing'', ''Science''],
              [''Flu vaccine'', ''Nature'']]\<rparr>"

definition covid_results :: dataframe where
  "covid_results =
     \<lparr>columns = [''title'', ''journal''],
      rows = [[''Covid vaccine trial'', ''Nature''],
              [''Covid testing'', ''Science'']]\<rparr>"

definition tied_results :: dataframe where
  "tied_results =
     \<lparr>columns = [''title'', ''journal''],
      rows = [[''a'', ''Nature''], [''b'', ''Science''], [''c'', ''Cell'']]\<rparr>"

definition ranked_results :: dataframe where
  "ranked_results =
     \<lparr>columns = [''title'', ''journal''],
      rows = [[''a'', ''Nature''], [''b'', ''Science''], [''c'', ''Nature''],
              [''d'', ''Cell''], [''e'', ''Nature''], [''f'', ''Science'']]\<rparr>"


definition dot_table :: dataframe where
  "dot_table = \<lparr>columns = [''title''], rows = [[''abc'']]\<rparr>"

definition paren_table :: dataframe where
  "paren_table = \<lparr>columns = [''title''], rows = [[''f(x)'']]\<rparr>"

definition example_read_csv :: "string \<Rightarrow> error + raw_frame" where
  "example_read_csv text = Inr ([''title'', ''journal''], [[Some text, None]])"

definition example_session :: session where
  "example_session =
     \<lparr>files = [''abc.tsv'' \<mapsto> ''Covid testing''], cache = Map.empty, body_runs = 0\<rparr>"

section \<open>Positions in a list\<close>

lemma get_loc_None_iff: "get_loc c xs = None \<longleftrightarrow> c \<notin> set xs"
  by (induction xs) auto




section \<open>Properties of \<open>search_dataframe\<close>\<close>

lemma loc_map_filter: "map fst (filter snd (zip xs (map P xs))) = filter P xs"
  by (induction xs) auto

lemma parse_errors_bounded:
  "length s \<le> n \<Longrightarrow> parse cur stack s = Inl e \<Longrightarrow> e = ReError \<or> e = Unsupported"
proof (induction n arbitrary: s cur stack)
  case 0
  then show ?case by (auto split: if_splits)
next
  case (Suc n)
  show ?case
  proof (cases s)
    case Nil
    with Suc.prems show ?thesis by (auto split: if_splits)
  next
    case (Cons c cs)
    obtain alts items where cur: "cur = (alts, items)" by (cases cur)
    have A: "\<And>cur stack. parse cur stack cs = Inl e \<Longrightarrow> e = ReError \<or> e = Unsupported"
      using Suc.IH[of cs] Suc.prems(1) Cons by simp
    have B: "\<And>cur stack d ds. cs = d # ds \<Longrightarrow> parse cur stack ds = Inl e \<Longrightarrow> e = ReError \<or> e = Unsupported"
    proof -
      fix cur stack d ds
      assume "cs = d # ds" and p: "parse cur stack ds = Inl e"
      then have "length ds \<le> n" using Suc.prems(1) Cons by simp
      then show "e = ReError \<or> e = Unsupported" using Suc.IH p by blast
    qed
    from Suc.prems(2) show ?thesis
      unfolding Cons cur
      apply (subst (asm) parse.simps(2))
      apply (auto simp del: parse.simps split: if_splits list.splits prod.splits dest: A B)
      done
  qed
qed

lemma parse_not_KeyError: "parse cur stack s \<noteq> Inl KeyError"
  using parse_errors_bounded[of s "length s" cur stack KeyError] by auto

lemma nullable_re_match: "nullable r \<Longrightarrow> re_match r s"
  by (cases s) auto

lemma nullable_re_search: "nullable r \<Longrightarrow> re_search r s"
  by (induction s) (auto simp: nullable_re_match)

lemma re_compile_empty: "re_compile [] = Inr (Alt Eps Null)"
  by (simp add: re_compile_def frame_regex_def branch_of_def)

text \<open>
  A search that returns is a filter of the rows by the compiled pattern,
  whatever the engine.
\<close>

lemma search_dataframe_with_Inr:
  "search_dataframe_with compile search df c s = Inr res \<longleftrightarrow>
     (\<exists>i r. get_loc c (columns df) = Some i \<and> compile s = Inr r \<and>
        res = df\<lparr>rows := filter (\<lambda>row. search r (cell row i)) (rows df)\<rparr>)"
proof (cases "get_loc c (columns df)")
  case None
  then show ?thesis by (simp add: search_dataframe_with_def getitem_def)
next
  case (Some i)
  show ?thesis
  proof (cases "compile s")
    case (Inl e)
    with Some show ?thesis
      by (simp add: search_dataframe_with_def getitem_def str_contains_with_def)
  next
    case (Inr r)
    have "loc df (map (search r) (map (\<lambda>row. cell row i) (rows df)))
        = df\<lparr>rows := filter (\<lambda>row. search r (cell row i)) (rows df)\<rparr>"
      unfolding loc_def map_map loc_map_filter by (simp add: comp_def)
    with Some Inr show ?thesis
      by (auto simp add: search_dataframe_with_def getitem_def str_contains_with_def)
  qed
qed

lemma search_dataframe_Inr:
  "search_dataframe df c s = Inr res \<longleftrightarrow>
     (\<exists>i r. get_loc c (columns df) = Some i \<and> re_compile s = Inr r \<and>
        res = df\<lparr>rows := filter (\<lambda>row. re_search r (cell row i)) (rows df)\<rparr>)"
  unfolding search_dataframe_def by (rule search_dataframe_with_Inr)

text \<open>An unknown column is reported before the pattern is looked at.\<close>

lemma search_dataframe_with_unknown_column:
  "c \<notin> set (columns df) \<Longrightarrow> search_dataframe_with compile search df c s = Inl KeyError"
  using get_loc_None_iff[of c "columns df"]
  by (simp add: search_dataframe_with_def getitem_def)

lemma search_dataframe_with_known_column:
  "get_loc c (columns df) = Some i \<Longrightarrow>
   search_dataframe_with compile search df c s =
     (case compile s of
        Inl e \<Rightarrow> Inl e
      | Inr r \<Rightarrow> Inr (df\<lparr>rows := filter (\<lambda>row. search r (cell row i)) (rows df)\<rparr>))"
proof (cases "compile s")
  case (Inl e)
  assume "get_loc c (columns df) = Some i"
  with Inl show ?thesis
    by (simp add: search_dataframe_with_def getitem_def str_contains_with_def)
next
  case (Inr r)
  assume "get_loc c (columns df) = Some i"
  then have "search_dataframe_with compile search df c s
      = Inr (df\<lparr>rows := filter (\<lambda>row. search r (cell row i)) (rows df)\<rparr>)"
    unfolding search_dataframe_with_Inr using Inr by simp
  with Inr show ?thesis by simp
qed

subsection \<open>Search strings without special characters\<close>

lemma parse_plain:
  "\<forall>ch\<in>set s. ch \<notin> set special_chars \<Longrightarrow>
   parse (alts, items) stack s
     = parse (alts, rev (map (\<lambda>ch. (Lit ch, False)) s) @ items) stack []"
proof (induction s arbitrary: items)
  case Nil
  show ?case by simp
next
  case (Cons a s)
  have a: "a \<notin> set special_chars" and s: "\<forall>ch\<in>set s. ch \<notin> set special_chars"
    using Cons.prems by simp_all
  have "parse (alts, items) stack (a # s) = parse (alts, (Lit a, False) # items) stack s"
    using a by (simp add: special_chars_def)
  also have "\<dots> = parse (alts, rev (map (\<lambda>ch. (Lit ch, False)) s) @ (Lit a, False) # items) stack []"
    using s by (rule Cons.IH)
  finally show ?case by simp
qed

lemma re_compile_plain:
  "\<forall>ch\<in>set s. ch \<notin> set special_chars \<Longrightarrow>
   re_compile s = Inr (Alt (seq_of (map Lit s)) Null)"
proof -
  assume "\<forall>ch\<in>set s. ch \<notin> set special_chars"
  then have "re_compile s = parse ([], rev (map (\<lambda>ch. (Lit ch, False)) s) @ []) [] []"
    unfolding re_compile_def by (rule parse_plain)
  then show ?thesis
    by (simp add: frame_regex_def branch_of_def rev_map comp_def)
qed

lemma re_match_Null: "\<not> re_match Null v"
  by (induction v) simp_all

lemma re_match_Alt: "re_match (Alt r s) v \<longleftrightarrow> re_match r v \<or> re_match s v"
  by (induction v arbitrary: r s) auto

lemma re_match_Seq_Null: "\<not> re_match (Seq Null r) v"
  by (induction v) simp_all

lemma re_match_Seq_Eps: "re_match (Seq Eps r) v \<longleftrightarrow> re_match r v"
  by (cases v) (simp_all add: re_match_Alt re_match_Seq_Null)

lemma re_match_literals:
  "re_match (seq_of (map Lit s)) v \<longleftrightarrow> prefix (casefold s) (casefold v)"
proof (induction s arbitrary: v)
  case Nil
  show ?case by (cases v) (simp_all add: casefold_def)
next
  case (Cons a s)
  show ?case
  proof (cases v)
    case Nil
    then show ?thesis by (simp add: casefold_def)
  next
    case (Cons c cs)
    show ?thesis
    proof (cases "ascii_lower a = ascii_lower c")
      case True
      then show ?thesis
        using Cons.IH[of cs] Cons
        by (simp add: casefold_def re_match_Seq_Eps)
    next
      case False
      then show ?thesis
        using Cons by (simp add: casefold_def re_match_Seq_Null)
    qed
  qed
qed

lemma re_search_literals:
  "re_search (Alt (seq_of (map Lit s)) Null) v \<longleftrightarrow> spec_contains s v"
proof (induction v)
  case Nil
  show ?case by (cases s) (simp_all add: spec_contains_def casefold_def)
next
  case (Cons c cs)
  have "re_match (Alt (seq_of (map Lit s)) Null) (c # cs)
      \<longleftrightarrow> prefix (casefold s) (casefold (c # cs))"
    by (simp only: re_match_Alt re_match_Null re_match_literals simp_thms)
  moreover have "casefold (c # cs) = ascii_lower c # casefold cs"
    by (simp add: casefold_def)
  ultimately show ?case
    using Cons by (simp add: spec_contains_def sublist_Cons_right del: re_match.simps)
qed

text \<open>
  For a search string without special characters the search is the substring
  search of the specification, on ASCII text.
\<close>

lemma search_plain_string:
  assumes "\<forall>ch\<in>set s. ch \<notin> set special_chars" and "get_loc c (columns df) = Some i"
    and "ascii_text s" and "\<forall>row\<in>set (rows df). ascii_text (cell row i)"
  shows "search_dataframe df c s
    = Inr (df\<lparr>rows := filter (\<lambda>row. spec_contains s (cell row i)) (rows df)\<rparr>)"
proof -
  have "re_compile s = Inr (Alt (seq_of (map Lit s)) Null)"
    using assms(1) by (rule re_compile_plain)
  moreover have "filter (\<lambda>row. re_search (Alt (seq_of (map Lit s)) Null) (cell row i)) (rows df)
      = filter (\<lambda>row. spec_contains s (cell row i)) (rows df)"
    by (simp only: re_search_literals)
  ultimately show ?thesis
    using assms(2) unfolding search_dataframe_Inr by simp
qed

section \<open>Properties of the ranked groups\<close>



lemma keys_add_to_cell:
  "map fst (add_to_cell k cells) =
     (if k \<in> fst ` set cells then map fst cells else map fst cells @ [k])"
proof (induction cells)
  case Nil
  show ?case by simp
next
  case (Cons c cells)
  obtain k' n where c: "c = (k', n)" by (cases c)
  show ?case
  proof (cases "k' = k")
    case True
    then show ?thesis by (simp add: c)
  next
    case False
    then have "k \<in> fst ` set (c # cells) \<longleftrightarrow> k \<in> fst ` set cells"
      by (auto simp: c)
    with False Cons show ?thesis by (simp add: c)
  qed
qed

lemma map_of_add_to_cell:
  "map_of (add_to_cell k cells) =
     (map_of cells)(k \<mapsto> (case map_of cells k of None \<Rightarrow> 1 | Some n \<Rightarrow> Suc n))"
  by (induction cells) (auto simp: fun_eq_iff)

lemma aggregate_cells_snoc:
  "aggregate_cells (ks @ [k]) = add_to_cell k (aggregate_cells ks)"
  by (simp add: aggregate_cells_def)

lemma aggregate_cells_Nil: "aggregate_cells [] = []"
  by (simp add: aggregate_cells_def)

lemma keys_aggregate_cells:
  "set (map fst (aggregate_cells ks)) = set ks \<and> distinct (map fst (aggregate_cells ks))"
proof (induction ks rule: rev_induct)
  case Nil
  show ?case by (simp add: aggregate_cells_Nil)
next
  case (snoc k ks)
  then show ?case
    by (auto simp: aggregate_cells_snoc keys_add_to_cell)
qed

lemma map_of_aggregate_cells:
  "map_of (aggregate_cells ks) k = (if k \<in> set ks then Some (count_list ks k) else None)"
proof (induction ks rule: rev_induct)
  case Nil
  show ?case by (simp add: aggregate_cells_Nil)
next
  case (snoc x ks)
  then show ?case
    by (auto simp: aggregate_cells_snoc map_of_add_to_cell)
qed

lemma count_aggregate_cells:
  assumes "(k, n) \<in> set (aggregate_cells ks)"
  shows "n = count_list ks k \<and> 0 < n"
proof -
  have d: "distinct (map fst (aggregate_cells ks))"
    by (rule keys_aggregate_cells[THEN conjunct2])
  have "map_of (aggregate_cells ks) k = Some n"
    using assms d by simp
  then have k: "k \<in> set ks" and n: "n = count_list ks k"
    by (simp_all add: map_of_aggregate_cells split: if_splits)
  from k have "count_list ks k \<noteq> 0" by (simp add: count_list_0_iff)
  with n show ?thesis by simp
qed





lemma pairs_rank_from: "map (\<lambda>b. (label b, count b)) (rank_from i prev r cells) = cells"
  by (induction i prev r cells rule: rank_from.induct) (simp_all add: Let_def)


text \<open>Ranks never decrease along the sorted cells, and never exceed the position.\<close>

lemma ranks_rank_from_sorted:
  "r \<le> i + 1 \<Longrightarrow> sorted (r # map rank (rank_from i prev r cells))"
proof (induction i prev r cells rule: rank_from.induct)
  case (1 i prev r)
  show ?case by simp
next
  case (2 i prev r k n cells)
  define r' where "r' = (if 0 < i \<and> prev \<noteq> n then i + 1 else r)"
  have le: "r \<le> r'" and le': "r' \<le> (i + 1) + 1" using "2.prems" by (auto simp: r'_def)
  have "sorted (r' # map rank (rank_from (i + 1) n r' cells))"
    using "2.IH"[OF r'_def le'] .
  with le show ?case
    by (auto simp: Let_def r'_def[symmetric])
qed

text \<open>With strictly decreasing counts, the rank is the position.\<close>

lemma ranks_rank_from_strict:
  "sorted_wrt (\<lambda>a b. snd b < snd a) cells \<Longrightarrow> (0 < i \<Longrightarrow> cells \<noteq> [] \<Longrightarrow> prev \<noteq> snd (hd cells)) \<Longrightarrow>
   (i = 0 \<Longrightarrow> r = 1) \<Longrightarrow>
   map rank (rank_from i prev r cells) = [Suc i ..< Suc i + length cells]"
proof (induction i prev r cells rule: rank_from.induct)
  case (1 i prev r)
  show ?case by simp
next
  case (2 i prev r k n cells)
  define r' where "r' = (if 0 < i \<and> prev \<noteq> n then i + 1 else r)"
  have r': "r' = Suc i" using "2.prems"(2,3) by (cases "i = 0") (auto simp: r'_def)
  have "map rank (rank_from (i + 1) n r' cells) = [Suc (i + 1) ..< Suc (i + 1) + length cells]"
  proof (rule "2.IH"[OF r'_def])
    show "sorted_wrt (\<lambda>a b. snd b < snd a) cells" using "2.prems"(1) by simp
    show "n \<noteq> snd (hd cells)" if "cells \<noteq> []"
      using that "2.prems"(1) by (cases cells) auto
    show "r' = 1" if "i + 1 = 0" using that by simp
  qed
  then have tl: "map rank (rank_from (i + 1) n r' cells) = [Suc (Suc i) ..< Suc (Suc i) + length cells]"
    by simp
  have e: "Suc i + length ((k, n) # cells) = Suc (Suc i) + length cells" by simp
  have up: "[Suc i ..< Suc (Suc i) + length cells]
      = Suc i # [Suc (Suc i) ..< Suc (Suc i) + length cells]"
    by (rule upt_conv_Cons) simp
  have hd: "map rank (rank_from i prev r ((k, n) # cells))
      = r' # map rank (rank_from (i + 1) n r' cells)"
    by (simp add: Let_def r'_def[symmetric])
  from tl have tl': "map rank (rank_from (i + 1) n (Suc i) cells)
      = [Suc (Suc i) ..< Suc (Suc i) + length cells]"
    by (simp only: r')
  show ?case unfolding e up hd r' tl' by (rule refl)
qed


text \<open>The rank of a bar is one more than the number of cells with a larger count.\<close>

lemma rank_from_larger:
  "sorted_wrt (\<lambda>a b. snd b \<le> snd a) (pre @ cells) \<Longrightarrow> i = length pre \<Longrightarrow>
   (pre = [] \<Longrightarrow> r = 1) \<Longrightarrow>
   (pre \<noteq> [] \<Longrightarrow> prev = snd (last pre) \<and> r = Suc (length (filter (\<lambda>c. prev < snd c) pre))) \<Longrightarrow>
   b \<in> set (rank_from i prev r cells) \<Longrightarrow>
   rank b = Suc (length (filter (\<lambda>c. count b < snd c) (pre @ cells)))"
proof (induction cells arbitrary: pre i prev r)
  case Nil
  then show ?case by simp
next
  case (Cons c cells)
  obtain k n where c: "c = (k, n)" by (cases c)
  define r' where "r' = (if 0 < i \<and> prev \<noteq> n then i + 1 else r)"
  have srt: "sorted_wrt (\<lambda>a b. snd b \<le> snd a) (pre @ (k, n) # cells)"
    using Cons.prems(1) c by simp
  have after: "filter (\<lambda>c. n < snd c) cells = []"
    using srt by (auto simp: sorted_wrt_append filter_empty_conv)
  have before: "\<And>p. p \<in> set pre \<Longrightarrow> n \<le> snd p"
    using srt by (auto simp: sorted_wrt_append)
  have r': "r' = Suc (length (filter (\<lambda>c. n < snd c) pre))"
  proof (cases "pre = []")
    case True
    then show ?thesis using Cons.prems(2,3) by (simp add: r'_def)
  next
    case False
    then have prev: "prev = snd (last pre)"
      and r: "r = Suc (length (filter (\<lambda>c. prev < snd c) pre))"
      using Cons.prems(4) by simp_all
    have i: "0 < i" using False Cons.prems(2) by simp
    show ?thesis
    proof (cases "prev = n")
      case True
      then show ?thesis using r by (simp add: r'_def)
    next
      case neq: False
      have "n \<le> prev" using before[of "last pre"] False prev by simp
      with neq have lt: "n < prev" by simp
      have "prev \<le> snd p" if "p \<in> set pre" for p
      proof -
        from False obtain ps where ps: "pre = ps @ [last pre]"
          by (metis append_butlast_last_id)
        have "sorted_wrt (\<lambda>a b. snd b \<le> snd a) pre"
          using srt by (simp add: sorted_wrt_append)
        then have "sorted_wrt (\<lambda>a b. snd b \<le> snd a) (ps @ [last pre])"
          using ps by simp
        then have A: "\<forall>q\<in>set ps. snd (last pre) \<le> snd q"
          by (simp add: sorted_wrt_append)
        have "p \<in> set ps \<or> p = last pre"
          using that ps by (metis Un_iff empty_iff insert_iff list.set(1) list.set(2) set_append)
        then show ?thesis
        proof
          assume "p \<in> set ps"
          with A have "snd (last pre) \<le> snd p" by (rule bspec)
          then show ?thesis by (simp only: prev)
        next
          assume "p = last pre"
          then show ?thesis by (simp only: prev)
        qed
      qed
      then have "\<And>p. p \<in> set pre \<Longrightarrow> n < snd p"
        using lt by (rule less_le_trans[rotated])
      then have "filter (\<lambda>c. n < snd c) pre = pre"
        by (simp add: filter_id_conv)
      then show ?thesis using i neq Cons.prems(2) by (simp add: r'_def)
    qed
  qed
  have here: "r' = Suc (length (filter (\<lambda>c. n < snd c) (pre @ (k, n) # cells)))"
    using r' after by simp
  have unfold: "rank_from i prev r (c # cells)
      = \<lparr>label = k, count = n, rank = r'\<rparr> # rank_from (i + 1) n r' cells"
    by (simp add: c Let_def r'_def[symmetric])
  from Cons.prems(5) unfold
  consider "b = \<lparr>label = k, count = n, rank = r'\<rparr>" | "b \<in> set (rank_from (i + 1) n r' cells)"
    by auto
  then show ?case
  proof cases
    case 1
    then show ?thesis using here c by simp
  next
    case 2
    have "rank b = Suc (length (filter (\<lambda>c. count b < snd c) ((pre @ [(k, n)]) @ cells)))"
    proof (rule Cons.IH[OF _ _ _ _ 2])
      show "sorted_wrt (\<lambda>a b. snd b \<le> snd a) ((pre @ [(k, n)]) @ cells)" using srt by simp
      show "i + 1 = length (pre @ [(k, n)])" using Cons.prems(2) by simp
      show "r' = 1" if "pre @ [(k, n)] = []" using that by simp
      show "n = snd (last (pre @ [(k, n)])) \<and>
          r' = Suc (length (filter (\<lambda>c. n < snd c) (pre @ [(k, n)])))"
        using r' by simp
    qed
    then show ?thesis by (simp add: c)
  qed
qed


lemma pairs_rank_window:
  "map (\<lambda>b. (label b, count b)) (rank_window cells) = count_descending cells"
  by (simp add: rank_window_def pairs_rank_from)

lemma counts_rank_window:
  "map (\<lambda>b. - int (count b)) (rank_window cells)
     = map (\<lambda>c. - int (snd c)) (count_descending cells)"
proof -
  have "map (\<lambda>c. - int (snd c)) (map (\<lambda>b. (label b, count b)) (rank_window cells))
      = map (\<lambda>b. - int (count b)) (rank_window cells)"
    by (simp add: comp_def)
  then show ?thesis by (simp only: pairs_rank_window)
qed

lemma sorted_rank_window:
  "sorted (map (\<lambda>b. - int (count b)) (rank_window cells))"
  unfolding counts_rank_window count_descending_def by (rule sorted_sort_key)

lemma encode_sort_id:
  "encode_sort (transform_filter n (rank_window cells))
     = transform_filter n (rank_window cells)"
  unfolding encode_sort_def transform_filter_def
  by (rule sort_key_id_if_sorted) (rule sorted_filter, rule sorted_rank_window)

lemma keyed_bars_eq:
  "keyed_bars ks n = transform_filter n (rank_window (aggregate_cells ks))"
  by (simp only: keyed_bars_def encode_sort_id)




lemma set_rank_window:
  "b \<in> set (rank_window cells) \<Longrightarrow> (label b, count b) \<in> set cells"
proof -
  assume "b \<in> set (rank_window cells)"
  then have "(label b, count b) \<in> set (map (\<lambda>b. (label b, count b)) (rank_window cells))"
    by simp
  then show ?thesis
    by (simp only: pairs_rank_window count_descending_def set_sort)
qed



lemma length_aggregate_cells: "length (aggregate_cells ks) = card (set ks)"
proof -
  have "card (set (map fst (aggregate_cells ks))) = length (map fst (aggregate_cells ks))"
    by (rule distinct_card) (rule keys_aggregate_cells[THEN conjunct2])
  then show ?thesis
    by (simp only: keys_aggregate_cells[THEN conjunct1] length_map)
qed


lemma descending_count_descending:
  "sorted_wrt (\<lambda>a b. snd b \<le> snd a) (count_descending cells)"
proof -
  have "sorted (map (\<lambda>c. - int (snd c)) (count_descending cells))"
    unfolding count_descending_def by (rule sorted_sort_key)
  then show ?thesis by (simp add: sorted_map)
qed

lemma larger_count_descending:
  "length (filter P (count_descending cells)) = length (filter P cells)"
  by (simp add: count_descending_def filter_sort)

lemma rank_rank_window:
  assumes "b \<in> set (rank_window cells)"
  shows "rank b = Suc (length (filter (\<lambda>c. count b < snd c) cells))"
proof -
  have "rank b = Suc (length (filter (\<lambda>c. count b < snd c) ([] @ count_descending cells)))"
  proof (rule rank_from_larger[where i = 0 and prev = 0 and r = 1])
    show "sorted_wrt (\<lambda>a b. snd b \<le> snd a) ([] @ count_descending cells)"
      by (simp add: descending_count_descending)
    show "b \<in> set (rank_from 0 0 1 (count_descending cells))"
      using assms by (simp add: rank_window_def)
  qed simp_all
  then show ?thesis by (simp add: larger_count_descending)
qed

lemma cells_aggregate_cells:
  "aggregate_cells ks = map (\<lambda>k. (k, count_list ks k)) (map fst (aggregate_cells ks))"
proof -
  have "map (\<lambda>c. (fst c, count_list ks (fst c))) (aggregate_cells ks) = aggregate_cells ks"
  proof (rule map_idI)
    fix c
    assume "c \<in> set (aggregate_cells ks)"
    then have "(fst c, snd c) \<in> set (aggregate_cells ks)" by simp
    then have "snd c = count_list ks (fst c)" by (rule count_aggregate_cells[THEN conjunct1])
    then show "(fst c, count_list ks (fst c)) = c" by (cases c) simp
  qed
  then show ?thesis by (simp add: comp_def)
qed

lemma larger_aggregate_cells:
  "length (filter (\<lambda>c. m < snd c) (aggregate_cells ks))
     = card {g \<in> set ks. m < count_list ks g}"
proof -
  let ?keys = "map fst (aggregate_cells ks)"
  have d: "distinct ?keys" by (rule keys_aggregate_cells[THEN conjunct2])
  have s: "set ?keys = set ks" by (rule keys_aggregate_cells[THEN conjunct1])
  have "filter (\<lambda>c. m < snd c) (aggregate_cells ks)
      = filter (\<lambda>c. m < snd c) (map (\<lambda>k. (k, count_list ks k)) ?keys)"
    using cells_aggregate_cells[of ks] by simp
  also have "\<dots> = map (\<lambda>k. (k, count_list ks k)) (filter (\<lambda>k. m < count_list ks k) ?keys)"
    by (simp add: filter_map comp_def)
  finally have "length (filter (\<lambda>c. m < snd c) (aggregate_cells ks))
      = length (filter (\<lambda>k. m < count_list ks k) ?keys)"
    by simp
  also have "\<dots> = card ({g. m < count_list ks g} \<inter> set ?keys)"
    using d by (rule distinct_length_filter)
  also have "{g. m < count_list ks g} \<inter> set ?keys = {g \<in> set ks. m < count_list ks g}"
    unfolding s by (rule set_eqI) (simp add: conj_commute)
  finally show ?thesis .
qed

text \<open>What the fields of a bar of the chart are.\<close>

lemma bar_fields:
  assumes "keyed_bars ks n = bars" and "b \<in> set bars"
  shows "label b \<in> set (ks)"
    and "count b = count_list (ks) (label b)"
    and "rank b = Suc (card {g \<in> set (ks).
           count b < count_list (ks) g})"
    and "int (rank b) < n"
proof -
  let ?ks = "ks"
  have bars: "bars = transform_filter n (rank_window (aggregate_cells ?ks))"
    using assms(1) by (simp add: keyed_bars_eq)
  then have w: "b \<in> set (rank_window (aggregate_cells ?ks))"
    and "int (rank b) < n"
    using assms(2) by (simp_all add: transform_filter_def)
  then show "int (rank b) < n" by simp
  have cell: "(label b, count b) \<in> set (aggregate_cells ?ks)"
    using w by (rule set_rank_window)
  then show "count b = count_list ?ks (label b)"
    by (rule count_aggregate_cells[THEN conjunct1])
  have "fst (label b, count b) \<in> set (map fst (aggregate_cells ?ks))"
    using cell by (simp only: set_map) (rule imageI)
  then show "label b \<in> set ?ks"
    by (simp only: keys_aggregate_cells[THEN conjunct1] fst_conv)
  show "rank b = Suc (card {g \<in> set ?ks. count b < count_list ?ks g})"
    using rank_rank_window[OF w] by (simp only: larger_aggregate_cells)
qed


lemma ranks_rank_window: "sorted (1 # map rank (rank_window cells))"
  unfolding rank_window_def by (rule ranks_rank_from_sorted) simp

lemma ranks_keyed_bars_sorted:
  assumes "keyed_bars ks n = bars"
  shows "sorted (map rank bars)"
proof -
  let ?W = "rank_window (aggregate_cells (ks))"
  have "sorted (map rank ?W)" using ranks_rank_window[of "aggregate_cells (ks)"] by simp
  then have "sorted (map rank (filter (\<lambda>b. int (rank b) < n) ?W))" by (rule sorted_filter)
  then show ?thesis using assms by (simp add: keyed_bars_eq transform_filter_def)
qed

lemma first_rank_rank_window:
  "rank_window cells = w # ws \<Longrightarrow> rank w = 1"
  by (cases "count_descending cells") (auto simp: rank_window_def Let_def)

lemma first_rank_keyed_bars:
  assumes "keyed_bars ks n = bars" and "bars \<noteq> []"
  shows "rank (hd bars) = 1"
proof -
  let ?W = "rank_window (aggregate_cells (ks))"
  have bars: "bars = filter (\<lambda>b. int (rank b) < n) ?W"
    using assms(1) by (simp add: keyed_bars_eq transform_filter_def)
  with assms(2) obtain b where b: "b \<in> set ?W" and lt: "int (rank b) < n"
    by (metis filter_False)
  then obtain w ws where W: "?W = w # ws" by (cases ?W) auto
  then have w: "rank w = 1" by (rule first_rank_rank_window)
  have "sorted (1 # map rank ?W)" by (rule ranks_rank_window)
  then have "1 \<le> rank b" using b by simp
  with lt have "int (rank w) < n" using w by simp
  then have "bars = w # filter (\<lambda>b. int (rank b) < n) ws"
    using bars W by simp
  then show ?thesis using w by simp
qed

lemma strictly_descending:
  "sorted_wrt (\<lambda>a b. snd b \<le> snd a) (xs :: ('k \<times> nat) list) \<Longrightarrow> distinct (map snd xs) \<Longrightarrow>
   sorted_wrt (\<lambda>a b. snd b < snd a) xs"
proof (induction xs)
  case Nil
  show ?case by simp
next
  case (Cons x xs)
  have "snd y < snd x" if "y \<in> set xs" for y
  proof -
    have "snd y \<le> snd x" using that Cons.prems(1) by simp
    moreover have "snd x \<notin> snd ` set xs" using Cons.prems(2) by simp
    then have "snd y \<noteq> snd x" using that by (metis imageI)
    ultimately show ?thesis by simp
  qed
  then show ?case using Cons by simp
qed

lemma filter_upt_less: "filter (\<lambda>r. int r < n) [a..<b] = [a..<min b (nat n)]"
proof (induction b)
  case 0
  show ?case by simp
next
  case (Suc b)
  show ?case
  proof (cases "a \<le> b")
    case False
    then show ?thesis by simp
  next
    case True
    show ?thesis
    proof (cases "int b < n")
      case lt: True
      then have "min (Suc b) (nat n) = Suc b" "min b (nat n) = b" by auto
      then show ?thesis using True lt Suc by simp
    next
      case ge: False
      then have "min (Suc b) (nat n) = nat n" "min b (nat n) = nat n" by auto
      then show ?thesis using True ge Suc by simp
    qed
  qed
qed

text \<open>Counts that differ from group to group: the ranks are the positions.\<close>

lemma distinct_counts_aggregate_cells:
  assumes "inj_on (count_list ks) (set ks)"
  shows "distinct (map snd (aggregate_cells ks))"
proof -
  define keys where "keys = map fst (aggregate_cells ks)"
  have "distinct keys" and "set keys = set ks"
    unfolding keys_def using keys_aggregate_cells[of ks] by blast+
  then have "distinct (map (count_list ks) keys)"
    using assms by (simp add: distinct_map)
  moreover have "map snd (aggregate_cells ks) = map (count_list ks) keys"
  proof -
    have "map snd (map (\<lambda>k. (k, count_list ks k)) keys) = map (count_list ks) keys"
      by (simp add: comp_def)
    then show ?thesis using cells_aggregate_cells[of ks] by (simp only: keys_def)
  qed
  ultimately show ?thesis by simp
qed

lemma ranks_without_ties:
  assumes "inj_on (count_list ks) (set ks)"
  shows "map rank (rank_window (aggregate_cells ks)) = [1 ..< Suc (card (set ks))]"
proof -
  let ?cells = "count_descending (aggregate_cells ks)"
  have "distinct (map snd ?cells) = distinct (map snd (aggregate_cells ks))"
    by (simp add: count_descending_def distinct_map)
  then have "distinct (map snd ?cells)"
    using distinct_counts_aggregate_cells[OF assms] by simp
  then have "sorted_wrt (\<lambda>a b. snd b < snd a) ?cells"
    using descending_count_descending by (rule strictly_descending[rotated])
  then have "map rank (rank_from 0 0 1 ?cells) = [Suc 0 ..< Suc 0 + length ?cells]"
    by (rule ranks_rank_from_strict) simp_all
  moreover have "length ?cells = card (set ks)"
    by (simp add: count_descending_def length_aggregate_cells)
  ultimately show ?thesis by (simp add: rank_window_def)
qed

lemma ranks_keyed_bars_without_ties:
  assumes "keyed_bars ks n = bars"
    and "inj_on (count_list (ks)) (set (ks))"
  shows "map rank bars = [1 ..< Suc (length bars)]"
    and "length bars \<le> nat n"
proof -
  let ?ks = "ks"
  let ?W = "rank_window (aggregate_cells ?ks)"
  have "map rank bars = filter (\<lambda>r. int r < n) (map rank ?W)"
    using assms(1) by (simp add: keyed_bars_eq transform_filter_def filter_map comp_def)
  then have m: "map rank bars = [1 ..< min (Suc (card (set ?ks))) (nat n)]"
    by (simp only: ranks_without_ties[OF assms(2)] filter_upt_less)
  then have "length (map rank bars) = min (Suc (card (set ?ks))) (nat n) - 1"
    by (simp only: length_upt)
  then have l: "length bars = min (Suc (card (set ?ks))) (nat n) - 1" by simp
  then show "length bars \<le> nat n" by simp
  show "map rank bars = [1 ..< Suc (length bars)]"
  proof (cases "min (Suc (card (set ?ks))) (nat n) = 0")
    case True
    then show ?thesis using m l by simp
  next
    case False
    then have "Suc (length bars) = min (Suc (card (set ?ks))) (nat n)" using l by simp
    then show ?thesis using m by simp
  qed
qed









section \<open>Properties of \<open>generate_barplot\<close>\<close>

text \<open>
  The writes of the two transforms change the label only, so the chart is the
  list of ranked groups with \<open>written\<close> applied to each bar.
\<close>

lemma written_fields [simp]:
  "count (written c b) = count b" "rank (written c b) = rank b"
  by (simp_all add: written_def write_rank_def write_count_def)

lemma written_ordinary: "ordinary_field c \<Longrightarrow> written c b = b"
  by (simp add: ordinary_field_def written_def write_rank_def write_count_def)

lemma insort_key_map:
  "(\<And>x. f (g x) = h x) \<Longrightarrow> insort_key f (g x) (map g xs) = map g (insort_key h x xs)"
  by (induction xs) simp_all

lemma sort_key_map:
  "(\<And>x. f (g x) = h x) \<Longrightarrow> sort_key f (map g xs) = map g (sort_key h xs)"
  by (induction xs) (simp_all add: insort_key_map)

lemma count_descending_write_count:
  "count_descending (map (write_count c) cells) = map (write_count c) (count_descending cells)"
  unfolding count_descending_def
  by (rule sort_key_map) (simp add: write_count_def)

lemma rank_from_relabel:
  "rank_from i prev r (map (\<lambda>c. (g (fst c) (snd c), snd c)) cells)
     = map (\<lambda>b. b\<lparr>label := g (label b) (count b)\<rparr>) (rank_from i prev r cells)"
proof (induction i prev r cells rule: rank_from.induct)
  case (1 i prev r)
  show ?case by simp
next
  case (2 i prev r k n cells)
  define r' where "r' = (if 0 < i \<and> prev \<noteq> n then i + 1 else r)"
  have "rank_from (i + 1) n r' (map (\<lambda>c. (g (fst c) (snd c), snd c)) cells)
      = map (\<lambda>b. b\<lparr>label := g (label b) (count b)\<rparr>) (rank_from (i + 1) n r' cells)"
    by (rule "2.IH"[OF r'_def])
  then show ?case by (simp add: Let_def r'_def[symmetric])
qed

lemma rank_from_write_count:
  "rank_from i prev r (map (write_count c) cells)
     = map (\<lambda>b. b\<lparr>label := fst (write_count c (label b, count b))\<rparr>) (rank_from i prev r cells)"
proof (cases "c = ''count''")
  case True
  have 1: "map (write_count c) cells = map (\<lambda>x. (Num (snd x), snd x)) cells"
    using True by (simp add: write_count_def)
  have 2: "map (\<lambda>b. b\<lparr>label := fst (write_count c (label b, count b))\<rparr>) bars
      = map (\<lambda>b. b\<lparr>label := Num (count b)\<rparr>) bars" for bars
    using True by (simp add: write_count_def)
  show ?thesis
    unfolding 1 2 by (rule rank_from_relabel[of i prev r "\<lambda>k n. Num n" cells])
next
  case False
  have 1: "map (write_count c) cells = cells"
    using False by (induction cells) (simp_all add: write_count_def)
  have 2: "map (\<lambda>b. b\<lparr>label := fst (write_count c (label b, count b))\<rparr>) bars = bars" for bars
    using False by (induction bars) (simp_all add: write_count_def)
  show ?thesis unfolding 1 2 by (rule refl)
qed

lemma transform_window_written:
  "transform_window c (transform_aggregate c ks)
     = map (written c) (rank_window (aggregate_cells ks))"
  by (simp add: transform_window_def transform_aggregate_def rank_window_def
      count_descending_write_count rank_from_write_count written_def comp_def)

lemma transform_filter_written:
  "transform_filter n (map (written c) bars) = map (written c) (transform_filter n bars)"
  by (simp add: transform_filter_def filter_map comp_def)

lemma encode_sort_written:
  "encode_sort (map (written c) bars) = map (written c) (encode_sort bars)"
  unfolding encode_sort_def by (rule sort_key_map) simp

lemma generate_barplot_eq:
  "generate_barplot results c n = Inr (map (written c) (keyed_bars (group_values results c) n))"
  by (simp only: generate_barplot_def keyed_bars_def transform_window_written
      transform_filter_written encode_sort_written)

lemma generate_barplot_ordinary:
  "ordinary_field c \<Longrightarrow> generate_barplot results c n = Inr (keyed_bars (group_values results c) n)"
proof -
  assume "ordinary_field c"
  then have "written c = (\<lambda>b. b)" by (intro ext) (rule written_ordinary)
  then show ?thesis by (simp add: generate_barplot_eq)
qed

section \<open>Evaluations on the example tables\<close>

lemma search_covid: "search_dataframe example_table ''title'' ''covid'' = Inr covid_results"
  by code_simp

lemma search_with_covid:
  "search_dataframe_with re_compile re_search example_table ''title'' ''covid'' = Inr covid_results"
  using search_covid by (simp only: search_dataframe_def)


lemma groups_tied:
  "group_values tied_results ''journal'' = [Str ''Nature'', Str ''Science'', Str ''Cell'']"
  by code_simp

lemma groups_ranked:
  "group_values ranked_results ''journal'' =
     [Str ''Nature'', Str ''Science'', Str ''Nature'', Str ''Cell'', Str ''Nature'', Str ''Science'']"
  by code_simp


lemma barplot_ranked_3:
  "generate_barplot ranked_results ''journal'' 3 =
     Inr [\<lparr>label = Str ''Nature'', count = 3, rank = 1\<rparr>,
          \<lparr>label = Str ''Science'', count = 2, rank = 2\<rparr>]"
  by code_simp


lemma ranked_results_no_ties:
  "inj_on (count_list (group_values ranked_results ''journal''))
     (set (group_values ranked_results ''journal''))"
  by (auto simp: groups_ranked inj_on_def)


section \<open>The claims of the specification\<close>

text \<open>
  Claim C1 states that a row is in the result of a search exactly when the search
  string, case-folded, is a contiguous part of the row's value, case-folded, for
  every search string. \<open>search_dataframe\<close> hands the string to \<open>str.contains\<close>
  as a regular expression: \<open>a.c\<close> selects the row \<open>abc\<close>, which does not contain
  it, and \<open>(\<close> raises \<open>re.error\<close> although the row \<open>f(x)\<close> contains it.
  (For a search string without special characters the two agree on ASCII text,
  see \<open>search_plain_string\<close>.)
\<close>

theorem search_pattern_is_regex:
  "search_dataframe dot_table ''title'' ''a.c'' = Inr dot_table \<and>
   \<not> spec_contains ''a.c'' ''abc'' \<and>
   search_dataframe paren_table ''title'' ''('' = Inl ReError \<and>
   spec_contains ''('' ''f(x)''"
  by code_simp




text \<open>
  Against claim C3 as stated: in the specification's own scenario the two
  journals of the search result each occur once, and both bars get rank 1.
\<close>

theorem barplot_tied_ranks_shared:
  "search_dataframe example_table ''title'' ''covid'' = Inr covid_results \<and>
   generate_barplot covid_results ''journal'' 10 =
     Inr [\<lparr>label = Str ''Nature'', count = 1, rank = 1\<rparr>,
          \<lparr>label = Str ''Science'', count = 1, rank = 1\<rparr>]"
  by code_simp

text \<open>
  Claim C3, amended. The ranks of the bars never decrease from one bar to the
  next and start at 1; the rank of a bar is one more than the number of groups
  with a strictly larger count, so groups of equal count share a rank; and when
  no two groups have the same count the ranks are exactly 1, 2, 3, ... in order.
\<close>

theorem barplot_ranks:
  assumes "generate_barplot results c n = Inr bars"
  shows "sorted (map rank bars) \<and>
         (bars \<noteq> [] \<longrightarrow> rank (hd bars) = 1) \<and>
         (\<forall>b\<in>set bars. rank b = Suc (card {g \<in> set (group_values results c).
             count b < count_list (group_values results c) g})) \<and>
         (inj_on (count_list (group_values results c)) (set (group_values results c))
            \<longrightarrow> map rank bars = [1 ..< Suc (length bars)])"
proof -
  let ?ks = "group_values results c"
  define kb where "kb = keyed_bars ?ks n"
  have bars: "bars = map (written c) kb"
    using assms by (simp add: generate_barplot_eq kb_def)
  have ranks: "map rank bars = map rank kb" by (simp add: bars comp_def)
  have 1: "sorted (map rank bars)"
    unfolding ranks kb_def by (rule ranks_keyed_bars_sorted[OF refl])
  have 2: "bars \<noteq> [] \<longrightarrow> rank (hd bars) = 1"
  proof
    assume "bars \<noteq> []"
    then have ne: "kb \<noteq> []" by (simp add: bars)
    then have "rank (hd kb) = 1"
      unfolding kb_def by (rule first_rank_keyed_bars[OF refl])
    then show "rank (hd bars) = 1" using ne by (simp add: bars hd_map)
  qed
  have 3: "\<forall>b\<in>set bars. rank b = Suc (card {g \<in> set ?ks. count b < count_list ?ks g})"
  proof
    fix b
    assume "b \<in> set bars"
    then obtain b' where b': "b' \<in> set kb" and b: "b = written c b'"
      by (auto simp: bars)
    have "rank b' = Suc (card {g \<in> set ?ks. count b' < count_list ?ks g})"
      using b' unfolding kb_def by (rule bar_fields(3)[OF refl])
    then show "rank b = Suc (card {g \<in> set ?ks. count b < count_list ?ks g})"
      by (simp add: b)
  qed
  have 4: "inj_on (count_list ?ks) (set ?ks) \<longrightarrow> map rank bars = [1 ..< Suc (length bars)]"
  proof
    assume "inj_on (count_list ?ks) (set ?ks)"
    then have "map rank kb = [1 ..< Suc (length kb)]"
      unfolding kb_def by (rule ranks_keyed_bars_without_ties(1)[OF refl])
    moreover have "length bars = length kb" by (simp add: bars)
    ultimately show "map rank bars = [1 ..< Suc (length bars)]"
      by (simp only: ranks)
  qed
  from 1 2 3 4 show ?thesis by blast
qed

theorem barplot_ranks_witness:
  "generate_barplot ranked_results ''journal'' 3 =
     Inr [\<lparr>label = Str ''Nature'', count = 3, rank = 1\<rparr>,
          \<lparr>label = Str ''Science'', count = 2, rank = 2\<rparr>] \<and>
   inj_on (count_list (group_values ranked_results ''journal''))
     (set (group_values ranked_results ''journal'')) \<and>
   map rank [\<lparr>label = Str ''Nature'', count = 3, rank = 1\<rparr>,
             \<lparr>label = Str ''Science'', count = 2, rank = 2\<rparr>]
     = [1 ..< Suc (length [\<lparr>label = Str ''Nature'', count = 3, rank = 1\<rparr>,
                            \<lparr>label = Str ''Science'', count = 2, rank = 2\<rparr>])]"
proof -
  let ?bars = "[\<lparr>label = Str ''Nature'', count = 3, rank = 1\<rparr>,
                \<lparr>label = Str ''Science'', count = 2, rank = 2\<rparr>]"
  have "map rank ?bars = [1 ..< Suc (length ?bars)]"
    using barplot_ranks[OF barplot_ranked_3] ranked_results_no_ties by blast
  with barplot_ranked_3 ranked_results_no_ties show ?thesis
    by (intro conjI)
qed




text \<open>
  Against claim C5 as stated: with cutoff 0 the call returns, with an empty
  chart, instead of failing.
\<close>

theorem barplot_zero_cutoff_returns:
  "generate_barplot covid_results ''journal'' 0 = Inr []"
  by code_simp

text \<open>
  Claim C5, amended. \<open>generate_barplot\<close> does not check its cutoff: for
  \<open>top_n \<le> 0\<close> it returns a chart with no bars, and no error.
\<close>

theorem barplot_nonpositive_cutoff:
  "n \<le> 0 \<Longrightarrow> generate_barplot results c n = Inr []"
proof -
  assume n: "n \<le> 0"
  let ?W = "rank_window (aggregate_cells (group_values results c))"
  have "filter (\<lambda>b. int (rank b) < n) ?W = []"
    using n by (simp add: filter_empty_conv)
  then show ?thesis
    by (simp add: generate_barplot_eq keyed_bars_eq transform_filter_def)
qed

theorem barplot_nonpositive_cutoff_witness:
  "(-1::int) \<le> 0 \<and> generate_barplot ranked_results ''journal'' (-1) = Inr []"
  using barplot_nonpositive_cutoff[of "-1" ranked_results "''journal''"] by simp

text \<open>
  Claim C6. For a column of the table, searching for the empty string returns
  the table itself: all rows, in their order, whatever their values, the empty
  value included.
\<close>

theorem search_empty_string_returns_all:
  "c \<in> set (columns df) \<Longrightarrow> search_dataframe df c [] = Inr df"
proof -
  assume "c \<in> set (columns df)"
  then obtain i where i: "get_loc c (columns df) = Some i"
    using get_loc_None_iff[of c "columns df"] by (cases "get_loc c (columns df)") auto
  have "filter (\<lambda>row. re_search (Alt Eps Null) (cell row i)) (rows df) = rows df"
    by (simp add: nullable_re_search)
  then have "df = df\<lparr>rows := filter (\<lambda>row. re_search (Alt Eps Null) (cell row i)) (rows df)\<rparr>"
    by simp
  with i re_compile_empty show ?thesis
    unfolding search_dataframe_Inr by blast
qed

theorem search_empty_string_returns_all_witness:
  "''title'' \<in> set (columns example_table) \<and>
   search_dataframe example_table ''title'' [] = Inr example_table"
  using search_empty_string_returns_all[of "''title''" example_table]
  by (simp add: example_table_def)

text \<open>
  Claim C7. Whatever the regular-expression engine makes of the search string,
  so for every search string on which the search returns: the rows of the
  result are a subsequence of the rows of the table, under the same columns.
  Rows that are kept stay in their relative order.
\<close>

theorem search_preserves_row_order:
  "search_dataframe_with compile search df c s = Inr res \<Longrightarrow>
   columns res = columns df \<and> subseq (rows res) (rows df)"
proof -
  assume "search_dataframe_with compile search df c s = Inr res"
  then obtain i r where "res = df\<lparr>rows := filter (\<lambda>row. search r (cell row i)) (rows df)\<rparr>"
    unfolding search_dataframe_with_Inr by blast
  then show ?thesis by simp
qed

theorem search_preserves_row_order_witness:
  "search_dataframe_with re_compile re_search example_table ''title'' ''covid''
     = Inr covid_results \<and>
   columns covid_results = columns example_table \<and>
   subseq (rows covid_results) (rows example_table)"
  using search_preserves_row_order[OF search_with_covid] search_with_covid by simp

text \<open>
  Claim C8. A search fails with \<open>KeyError\<close>, the unknown-column failure,
  exactly when the column is not a column of the table, whatever the search
  string. The search is a function of the table and returns a new frame, so the
  table is as it was after a failure.
\<close>

theorem search_unknown_column:
  "search_dataframe df c s = Inl KeyError \<longleftrightarrow> c \<notin> set (columns df)"
proof (cases "get_loc c (columns df)")
  case None
  then have "c \<notin> set (columns df)" by (simp add: get_loc_None_iff)
  then show ?thesis
    by (simp add: search_dataframe_def search_dataframe_with_unknown_column)
next
  case (Some i)
  then have "c \<in> set (columns df)"
    using get_loc_None_iff[of c "columns df"] by auto
  moreover have "search_dataframe df c s \<noteq> Inl KeyError"
    using parse_not_KeyError[of "([], [])" "[]" s]
    by (cases "re_compile s")
       (simp_all add: search_dataframe_def search_dataframe_with_known_column[OF Some]
          re_compile_def)
  ultimately show ?thesis by simp
qed

theorem search_unknown_column_witness:
  "''missingcol'' \<notin> set (columns example_table) \<and>
   search_dataframe example_table ''missingcol'' ''x'' = Inl KeyError"
  using search_unknown_column[of example_table "''missingcol''" "''x''"]
  by (simp add: example_table_def)

text \<open>
  Claim C9. Once \<open>load_data\<close> has succeeded for a path, a second call with
  that path returns the same frame, and leaves the state as it is: the body does
  not run again (\<open>body_runs\<close> is unchanged), whatever has happened to the files
  in between.
\<close>

theorem load_data_cached:
  "load_data read_csv filepath s = (Inr df, s') \<Longrightarrow>
   load_data read_csv filepath (s'\<lparr>files := fs\<rparr>) = (Inr df, s'\<lparr>files := fs\<rparr>)"
proof -
  assume a: "load_data read_csv filepath s = (Inr df, s')"
  have "cache s' filepath = Some df"
  proof (cases "cache s filepath")
    case (Some d)
    with a show ?thesis by (auto simp: load_data_def)
  next
    case None
    with a show ?thesis
      by (auto simp: load_data_def split: prod.splits sum.splits)
  qed
  then show ?thesis by (simp add: load_data_def)
qed

theorem load_data_cached_witness:
  "load_data example_read_csv ''abc.tsv'' example_session
     = (Inr \<lparr>columns = [''title'', ''journal''], rows = [[''Covid testing'', []]]\<rparr>,
        \<lparr>files = [''abc.tsv'' \<mapsto> ''Covid testing''],
         cache = [''abc.tsv'' \<mapsto>
           \<lparr>columns = [''title'', ''journal''], rows = [[''Covid testing'', []]]\<rparr>],
         body_runs = 1\<rparr>) \<and>
   load_data example_read_csv ''abc.tsv''
       \<lparr>files = Map.empty,
        cache = [''abc.tsv'' \<mapsto>
          \<lparr>columns = [''title'', ''journal''], rows = [[''Covid testing'', []]]\<rparr>],
        body_runs = 1\<rparr>
     = (Inr \<lparr>columns = [''title'', ''journal''], rows = [[''Covid testing'', []]]\<rparr>,
        \<lparr>files = Map.empty,
         cache = [''abc.tsv'' \<mapsto>
           \<lparr>columns = [''title'', ''journal''], rows = [[''Covid testing'', []]]\<rparr>],
         body_runs = 1\<rparr>)"
proof -
  have first: "load_data example_read_csv ''abc.tsv'' example_session
     = (Inr \<lparr>columns = [''title'', ''journal''], rows = [[''Covid testing'', []]]\<rparr>,
        \<lparr>files = [''abc.tsv'' \<mapsto> ''Covid testing''],
         cache = [''abc.tsv'' \<mapsto>
           \<lparr>columns = [''title'', ''journal''], rows = [[''Covid testing'', []]]\<rparr>],
         body_runs = 1\<rparr>)"
    by (simp add: load_data_def load_data_body_def example_read_csv_def example_session_def
        fillna_def)
  show ?thesis
    using first load_data_cached[OF first, of Map.empty] by simp
qed

text \<open>
  Claim C10. Whatever the regular-expression engine makes of the search
  string, so for every search string on which the search returns: searching the
  result again, for the same column and string, returns that result unchanged.
\<close>

theorem search_idempotent:
  "search_dataframe_with compile search df c s = Inr res \<Longrightarrow>
   search_dataframe_with compile search res c s = Inr res"
proof -
  assume "search_dataframe_with compile search df c s = Inr res"
  then obtain i r where i: "get_loc c (columns df) = Some i" and r: "compile s = Inr r"
    and res: "res = df\<lparr>rows := filter (\<lambda>row. search r (cell row i)) (rows df)\<rparr>"
    unfolding search_dataframe_with_Inr by blast
  have "get_loc c (columns res) = Some i" using i res by simp
  moreover have "res = res\<lparr>rows := filter (\<lambda>row. search r (cell row i)) (rows res)\<rparr>"
    using res by simp
  ultimately show ?thesis
    unfolding search_dataframe_with_Inr using r by blast
qed

theorem search_idempotent_witness:
  "search_dataframe_with re_compile re_search example_table ''title'' ''covid''
     = Inr covid_results \<and>
   search_dataframe_with re_compile re_search covid_results ''title'' ''covid''
     = Inr covid_results"
  using search_idempotent[OF search_with_covid] search_with_covid by simp

end
